theory Spec2Isabelle
  imports Complex_Main "HOL-Library.Word" "HOL-Library.Monad_Syntax"
begin

unbundle bit_operations_syntax

section \<open>Data model\<close>

text \<open>
  The embedding follows \<^verbatim>\<open>src/oxenc/base32z.h\<close> on an LP64 target: \<^verbatim>\<open>size_t\<close> and
  \<^verbatim>\<open>uint_fast16_t\<close> are 64-bit unsigned words whose arithmetic wraps, a byte
  (\<^verbatim>\<open>unsigned char\<close>) is an 8-bit word, and a character of an encoded string is a
  \<^typ>\<open>char\<close>.  The counter \<^verbatim>\<open>int bits\<close> is an \<^typ>\<open>int\<close>; every use of it as a shift count
  is guarded, and a shift the language leaves undefined, a failed \<^verbatim>\<open>assert\<close>, a read past
  the end of a table or the dereference of an end iterator is the result \<open>None\<close>.
  An iterator pair \<^verbatim>\<open>[_it, _end)\<close> is the list of the elements from \<^verbatim>\<open>_it\<close> on, so
  \<^verbatim>\<open>_it == _end\<close> is the empty list and \<^verbatim>\<open>++_it\<close> is \<^const>\<open>tl\<close>.
\<close>

type_synonym size_t = "64 word"
type_synonym uint_fast16_t = "64 word"
type_synonym byte = "8 word"

subsection \<open>The lookup tables (\<^verbatim>\<open>detail::b32z_table\<close>)\<close>

definition to_b32z_lut :: "char list" where
  "to_b32z_lut = ''ybndrfg8ejkmcpqxot1uwisza345h769''"

text \<open>One round of the constructor's loop \<^verbatim>\<open>for (char c = 0; c < 32; c++)\<close>.\<close>

definition b32z_table_step :: "nat \<Rightarrow> byte list \<Rightarrow> byte list" where
  "b32z_table_step c lut =
     (let x = to_b32z_lut ! c;
          lut1 = lut[of_char x := of_nat c]
      in if (of_char (CHR ''a'') :: nat) \<le> of_char x \<and> (of_char x :: nat) \<le> of_char (CHR ''z'')
         then lut1[of_char x - of_char (CHR ''a'') + of_char (CHR ''A'') := of_nat c]
         else lut1)"

definition from_b32z_lut :: "byte list" where
  "from_b32z_lut = fold b32z_table_step [0..<32] (replicate 256 0)"

text \<open>\<^verbatim>\<open>from_b32z(unsigned char c)\<close>: the index is below 256, the size of the table.\<close>

definition from_b32z :: "char \<Rightarrow> byte" where
  "from_b32z c = from_b32z_lut ! of_char c"

text \<open>\<^verbatim>\<open>to_b32z(unsigned char b)\<close>: the table has 32 entries, a larger index reads past it.\<close>

definition to_b32z :: "byte \<Rightarrow> char option" where
  "to_b32z b = (if unat b < 32 then Some (to_b32z_lut ! unat b) else None)"

subsection \<open>Size functions\<close>

definition to_base32z_size :: "size_t \<Rightarrow> size_t" where
  "to_base32z_size byte_size = (byte_size * 8 + 4) div 5"

definition from_base32z_size :: "size_t \<Rightarrow> size_t" where
  "from_base32z_size b32z_size =
     (let bits = b32z_size * 5 in if bits mod 8 < 5 then bits div 8 else 0)"

subsection \<open>Shifts by an \<^verbatim>\<open>int\<close> count\<close>

text \<open>
  \<^verbatim>\<open>static_cast<uint_fast16_t>((1 << bits) - 1)\<close> on a 32-bit \<^verbatim>\<open>int\<close>: defined for
  counts from 0 to 30.
\<close>

definition low_mask :: "int \<Rightarrow> uint_fast16_t option" where
  "low_mask n = (if 0 \<le> n \<and> n < 31 then Some (of_int (2 ^ nat n - 1)) else None)"

text \<open>\<^verbatim>\<open>x >> n\<close> on a 64-bit unsigned \<^verbatim>\<open>x\<close>: defined for counts from 0 to 63.\<close>

definition shift_right :: "uint_fast16_t \<Rightarrow> int \<Rightarrow> uint_fast16_t option" where
  "shift_right x n = (if 0 \<le> n \<and> n < 64 then Some (drop_bit (nat n) x) else None)"

definition shift_left :: "uint_fast16_t \<Rightarrow> int \<Rightarrow> uint_fast16_t option" where
  "shift_left x n = (if 0 \<le> n \<and> n < 64 then Some (push_bit (nat n) x) else None)"

subsection \<open>The encoder (\<^verbatim>\<open>base32z_encoder\<close>)\<close>

record base32z_encoder =
  e_it :: "byte list"
  e_bits :: int
  e_r :: uint_fast16_t

text \<open>The constructor with the default member initialisers of \<^verbatim>\<open>bits\<close> and \<^verbatim>\<open>r\<close>.\<close>

definition new_encoder :: "byte list \<Rightarrow> base32z_encoder" where
  "new_encoder input =
     (let bits = (if input \<noteq> [] then 8 else 0) in
      \<lparr>e_it = input, e_bits = bits,
       e_r = (case input of [] \<Rightarrow> 0 | b # _ \<Rightarrow> if bits \<noteq> 0 then ucast b else 0)\<rparr>)"

text \<open>\<^verbatim>\<open>operator==\<close> against \<^verbatim>\<open>end()\<close>, whose \<^verbatim>\<open>bits\<close> is 0.\<close>

definition encoder_at_end :: "base32z_encoder \<Rightarrow> bool" where
  "encoder_at_end e \<longleftrightarrow> e_it e = [] \<and> e_bits e = 0"

text \<open>
  \<^verbatim>\<open>operator++\<close>.  With fewer than five bits held the \<^verbatim>\<open>assert\<close> fails, and without the
  \<^verbatim>\<open>assert\<close> the shift count of the mask is negative.
\<close>

definition encoder_incr :: "base32z_encoder \<Rightarrow> base32z_encoder option" where
  "encoder_incr e =
     (if e_bits e < 5 then None
      else
        let bits = e_bits e - 5 in
        do {
          m \<leftarrow> low_mask bits;
          let r = e_r e AND m;
          if bits < 5 \<and> e_it e \<noteq> [] then
            (case tl (e_it e) of
               b # rest \<Rightarrow>
                 do {
                   r' \<leftarrow> shift_left r 8;
                   Some \<lparr>e_it = b # rest, e_bits = bits + 8, e_r = r' OR ucast b\<rparr>
                 }
             | [] \<Rightarrow>
                 if bits > 0 then
                   do {
                     r' \<leftarrow> shift_left r (5 - bits);
                     Some \<lparr>e_it = [], e_bits = 5, e_r = r'\<rparr>
                   }
                 else Some \<lparr>e_it = [], e_bits = bits, e_r = r\<rparr>)
          else Some \<lparr>e_it = e_it e, e_bits = bits, e_r = r\<rparr>
        })"

text \<open>\<^verbatim>\<open>operator*\<close>.\<close>

definition encoder_deref :: "base32z_encoder \<Rightarrow> char option" where
  "encoder_deref e =
     do {
       v \<leftarrow> shift_right (e_r e) (e_bits e - 5);
       to_b32z (ucast v)
     }"

text \<open>\<^verbatim>\<open>std::copy(it, it.end(), out)\<close> into a back inserter.\<close>

function encode_copy :: "base32z_encoder \<Rightarrow> string option" where
  "encode_copy e =
     (if encoder_at_end e then Some []
      else
        do {
          c \<leftarrow> encoder_deref e;
          e' \<leftarrow> encoder_incr e;
          cs \<leftarrow> encode_copy e';
          Some (c # cs)
        })"
  by pat_completeness auto

definition encoder_measure :: "base32z_encoder \<Rightarrow> nat" where
  "encoder_measure e = 8 * length (e_it e) + nat (e_bits e)"

termination encode_copy
proof (relation "measure encoder_measure")
  show "wf (measure encoder_measure)"
    by simp
next
  fix e c e'
  assume "encoder_incr e = Some e'"
  then have "encoder_measure e' < encoder_measure e"
    by (cases "e_it e")
       (auto simp: encoder_incr_def encoder_measure_def low_mask_def shift_left_def Let_def
        split: if_splits list.splits bind_splits)
  then show "(e', e) \<in> measure encoder_measure"
    by simp
qed

text \<open>
  \<^verbatim>\<open>to_base32z(begin, end)\<close>, the string the back inserter has built.  The call of
  \<^verbatim>\<open>reserve\<close> before it only sets the capacity of the string and is left out, here and in
  \<^verbatim>\<open>from_base32z\<close>.
\<close>

definition to_base32z :: "byte list \<Rightarrow> string option" where
  "to_base32z input = encode_copy (new_encoder input)"

subsection \<open>The validator (\<^verbatim>\<open>is_base32z\<close>)\<close>

text \<open>
  The loop over the characters; \<open>None\<close> is its early \<^verbatim>\<open>return false\<close>, otherwise it gives
  the final \<^verbatim>\<open>count\<close>, which only a non-random-access iterator advances.
\<close>

fun is_base32z_scan :: "bool \<Rightarrow> string \<Rightarrow> size_t \<Rightarrow> size_t option" where
  "is_base32z_scan random [] count = Some count"
| "is_base32z_scan random (c # cs) count =
     (if from_b32z c = 0 \<and> \<not> (c = CHR ''y'' \<or> c = CHR ''Y'') then None
      else is_base32z_scan random cs (if \<not> random then count + 1 else count))"

text \<open>
  The first argument is the template's constant \<^verbatim>\<open>random\<close>: whether the iterator is a
  random access iterator, as those of \<^verbatim>\<open>std::string_view\<close> are.
\<close>

definition is_base32z :: "bool \<Rightarrow> string \<Rightarrow> bool" where
  "is_base32z random s =
     (let count = (if random then of_nat (length s mod 8) else 0) in
      if random \<and> (count = 1 \<or> count = 3 \<or> count = 6) then False
      else
        (case is_base32z_scan random s count of
           None \<Rightarrow> False
         | Some count \<Rightarrow>
             if \<not> random then
               (let count = count mod 8 in \<not> (count = 1 \<or> count = 3 \<or> count = 6))
             else True))"

subsection \<open>The decoder (\<^verbatim>\<open>base32z_decoder\<close>)\<close>

record base32z_decoder =
  d_it :: string
  d_in :: uint_fast16_t
  d_bits :: int

text \<open>\<^verbatim>\<open>load_in\<close> reads \<^verbatim>\<open>*_it\<close>, which an end iterator does not have.\<close>

definition load_in :: "base32z_decoder \<Rightarrow> base32z_decoder option" where
  "load_in d =
     (case d_it d of
        [] \<Rightarrow> None
      | c # _ \<Rightarrow>
          do {
            x \<leftarrow> shift_left (d_in d) 5;
            Some (d\<lparr>d_in := x OR ucast (from_b32z c), d_bits := d_bits d + 5\<rparr>)
          })"

text \<open>\<^verbatim>\<open>load_byte\<close>: a second symbol is read when the first leaves fewer than 8 bits.\<close>

definition load_byte :: "base32z_decoder \<Rightarrow> base32z_decoder option" where
  "load_byte d =
     do {
       d1 \<leftarrow> load_in d;
       if d_bits d1 < 8 then
         (let d2 = d1\<lparr>d_it := tl (d_it d1)\<rparr> in
          if d_it d2 \<noteq> [] then load_in d2 else Some d2)
       else Some d1
     }"

text \<open>The constructor.\<close>

definition new_decoder :: "string \<Rightarrow> base32z_decoder option" where
  "new_decoder input =
     (let d = \<lparr>d_it = input, d_in = 0, d_bits = 0\<rparr> in
      if d_it d \<noteq> [] then load_byte d else Some d)"

text \<open>\<^verbatim>\<open>operator++\<close>; an end iterator cannot be advanced.\<close>

definition decoder_incr :: "base32z_decoder \<Rightarrow> base32z_decoder option" where
  "decoder_incr d =
     (let bits = d_bits d - 8 in
      if d_it d = [] then None
      else do {
        m \<leftarrow> low_mask bits;
        let d1 = d\<lparr>d_bits := bits, d_in := d_in d AND m, d_it := tl (d_it d)\<rparr>;
        if d_it d1 \<noteq> [] then load_byte d1 else Some d1
      })"

text \<open>\<^verbatim>\<open>operator*\<close>, with the \<^verbatim>\<open>static_cast<char>\<close> keeping the low 8 bits.\<close>

definition decoder_deref :: "base32z_decoder \<Rightarrow> byte option" where
  "decoder_deref d =
     do {
       v \<leftarrow> shift_right (d_in d) (d_bits d - 8);
       Some (ucast v)
     }"

text \<open>The loop \<^verbatim>\<open>while (it != bend) *out++ = *it++;\<close>.\<close>

function decode_loop :: "base32z_decoder \<Rightarrow> byte list option" where
  "decode_loop d =
     (if d_it d = [] then Some []
      else
        do {
          d' \<leftarrow> decoder_incr d;
          b \<leftarrow> decoder_deref d;
          bs \<leftarrow> decode_loop d';
          Some (b # bs)
        })"
  by pat_completeness auto

termination decode_loop
proof (relation "measure (\<lambda>d. length (d_it d))")
  show "wf (measure (\<lambda>d. length (d_it d)))"
    by simp
next
  fix d d'
  assume "d_it d \<noteq> []" and "decoder_incr d = Some d'"
  then have "length (d_it d') < length (d_it d)"
    by (cases "d_it d"; cases "tl (d_it d)")
       (auto simp: decoder_incr_def load_byte_def load_in_def Let_def
        split: if_splits list.splits bind_splits)
  then show "(d', d) \<in> measure (\<lambda>d. length (d_it d))"
    by simp
qed

text \<open>
  \<^verbatim>\<open>from_base32z(begin, end)\<close> as a release build runs it, where the \<^verbatim>\<open>assert\<close> is
  compiled out.
\<close>

definition from_base32z :: "string \<Rightarrow> byte list option" where
  "from_base32z input = do { it \<leftarrow> new_decoder input; decode_loop it }"

text \<open>
  The same in a debug build, where \<^verbatim>\<open>assert(is_base32z(begin, end))\<close> stops the program
  on an input that is not valid.
\<close>

definition from_base32z_debug :: "bool \<Rightarrow> string \<Rightarrow> byte list option" where
  "from_base32z_debug random input =
     (if is_base32z random input then from_base32z input else None)"

section \<open>Notions used to state the claims\<close>

text \<open>
  The ASCII upper-case form of a character, and membership in the alphabet without regard
  to case: the character is one of the 32 symbols or the upper-case form of one.
\<close>

definition ascii_upper :: "char \<Rightarrow> char" where
  "ascii_upper c =
     (if (of_char (CHR ''a'') :: nat) \<le> of_char c \<and> (of_char c :: nat) \<le> of_char (CHR ''z'')
      then char_of (of_char c - (32 :: nat)) else c)"

definition alphabet_member :: "char \<Rightarrow> bool" where
  "alphabet_member c \<longleftrightarrow> (\<exists>x \<in> set to_b32z_lut. c = x \<or> c = ascii_upper x)"

text \<open>The \<open>n\<close> low bits of a word, most significant first.\<close>

definition bits_of :: "nat \<Rightarrow> 'a::len word \<Rightarrow> bool list" where
  "bits_of n w = map (bit w) (rev [0..<n])"

text \<open>The bit stream of a byte sequence, and the bit stream a symbol sequence decodes to.\<close>

definition byte_bits :: "byte list \<Rightarrow> bool list" where
  "byte_bits bs = concat (map (bits_of 8) bs)"

definition symbol_bits :: "string \<Rightarrow> bool list" where
  "symbol_bits s = concat (map (\<lambda>c. bits_of 5 (from_b32z c)) s)"

text \<open>
  A bit stream cut into bytes, eight bits at a time from the front; a last group of fewer
  than eight bits is dropped.
\<close>

definition byte_of_bits :: "bool list \<Rightarrow> byte" where
  "byte_of_bits bs = horner_sum of_bool 2 (rev bs)"

fun group8 :: "bool list \<Rightarrow> byte list" where
  "group8 (b7 # b6 # b5 # b4 # b3 # b2 # b1 # b0 # rest) =
     byte_of_bits [b7, b6, b5, b4, b3, b2, b1, b0] # group8 rest"
| "group8 _ = []"

text \<open>The number of zero bits that fill a stream of \<open>n\<close> bits up to a multiple of five.\<close>

definition pad5 :: "nat \<Rightarrow> nat" where
  "pad5 n = (5 - n mod 5) mod 5"

definition padded :: "bool list \<Rightarrow> bool list" where
  "padded bs = bs @ replicate (pad5 (length bs)) False"

text \<open>
  The states the encoder runs through: \<^verbatim>\<open>r\<close> holds \<^verbatim>\<open>bits\<close> bits, between 5 and 12 of
  them while input is left, and 5 or none after the last byte.  The bits still to be
  encoded are those of \<^verbatim>\<open>r\<close> followed by the bytes after the current one.
\<close>

definition encoder_inv :: "base32z_encoder \<Rightarrow> bool" where
  "encoder_inv e \<longleftrightarrow>
     take_bit (nat (e_bits e)) (e_r e) = e_r e \<and>
     (if e_it e = [] then e_bits e = 0 \<or> e_bits e = 5 else 5 \<le> e_bits e \<and> e_bits e \<le> 12)"

definition encoder_stream :: "base32z_encoder \<Rightarrow> bool list" where
  "encoder_stream e = bits_of (nat (e_bits e)) (e_r e) @ byte_bits (tl (e_it e))"

text \<open>
  The states of the decoder: \<^verbatim>\<open>in\<close> holds \<^verbatim>\<open>bits\<close> bits, between 8 and 12 of them while it
  is not at the end, and fewer than 8 at the end.  The bits still to be decoded are those
  of \<^verbatim>\<open>in\<close> followed by the symbols after the current one.
\<close>

definition decoder_inv :: "base32z_decoder \<Rightarrow> bool" where
  "decoder_inv d \<longleftrightarrow>
     take_bit (nat (d_bits d)) (d_in d) = d_in d \<and>
     (if d_it d = [] then 0 \<le> d_bits d \<and> d_bits d < 8 else 8 \<le> d_bits d \<and> d_bits d \<le> 12)"

definition decoder_stream :: "base32z_decoder \<Rightarrow> bool list" where
  "decoder_stream d = bits_of (nat (d_bits d)) (d_in d) @ symbol_bits (tl (d_it d))"

section \<open>Size arithmetic\<close>

lemma enc_len_split: "((5 * q + t) * 8 + 4) div 5 = 8 * q + (t * 8 + 4) div (5::nat)"
proof -
  have "(5 * q + t) * 8 + 4 = 5 * (8 * q) + (t * 8 + 4)"
    by simp
  then show ?thesis
    by (simp only: div_mult_self4)
qed

lemma dec_len_split: "(8 * q + c) * 5 div 8 = 5 * q + c * 5 div (8::nat)"
proof -
  have "(8 * q + c) * 5 = 8 * (5 * q) + c * 5"
    by simp
  then show ?thesis
    by (simp only: div_mult_self4)
qed

text \<open>The encoded length of \<open>n\<close> bytes is a valid length and decodes to \<open>n\<close> bytes.\<close>

lemma encoded_length_roundtrip:
  "((n * 8 + 4) div 5) mod 8 \<notin> {1, 3, 6::nat} \<and> ((n * 8 + 4) div 5) * 5 div 8 = n"
proof -
  define q t where "q = n div 5" and "t = n mod 5"
  have n: "n = 5 * q + t" and t: "t < 5"
    by (simp_all add: q_def t_def)
  have e: "(n * 8 + 4) div 5 = 8 * q + (t * 8 + 4) div 5"
    unfolding n by (rule enc_len_split)
  have d: "(n * 8 + 4) div 5 * 5 div 8 = 5 * q + (t * 8 + 4) div 5 * 5 div 8"
    unfolding e by (rule dec_len_split)
  have m: "(n * 8 + 4) div 5 mod 8 = (t * 8 + 4) div 5 mod 8"
    unfolding e by simp
  from t consider "t = 0" | "t = 1" | "t = 2" | "t = 3" | "t = 4"
    by linarith
  then show ?thesis
    unfolding d m by cases (simp_all add: n)
qed

lemma times5_mod8: "k * 5 mod 8 < 5 \<longleftrightarrow> k mod 8 \<notin> {1, 3, 6::nat}"
proof -
  define c where "c = k mod 8"
  have c: "c < 8"
    by (simp add: c_def)
  have "k * 5 mod 8 = c * 5 mod 8"
    unfolding c_def by (simp add: mod_mult_left_eq)
  moreover from c consider "c = 0" | "c = 1" | "c = 2" | "c = 3" | "c = 4" | "c = 5" | "c = 6" | "c = 7"
    by linarith
  then have "c * 5 mod 8 < 5 \<longleftrightarrow> c \<notin> {1, 3, 6}"
    by cases simp_all
  ultimately show ?thesis
    by (simp add: c_def)
qed

lemma ceiling_8n_div_5: "\<lceil>real n * 8 / 5\<rceil> = int ((n * 8 + 4) div 5)"
proof (rule ceiling_unique)
  have "5 * ((n * 8 + 4) div 5) \<le> n * 8 + 4"
    by simp
  then have "real (5 * ((n * 8 + 4) div 5)) \<le> real (n * 8 + 4)"
    by (rule of_nat_mono)
  then show "real_of_int (int ((n * 8 + 4) div 5)) - 1 < real n * 8 / 5"
    by simp
next
  have "n * 8 + 4 < 5 * ((n * 8 + 4) div 5) + 5"
    using mod_less_divisor [of 5 "n * 8 + 4"] mult_div_mod_eq [of 5 "n * 8 + 4"] by linarith
  then have "n * 8 \<le> 5 * ((n * 8 + 4) div 5)"
    by simp
  then have "real (n * 8) \<le> real (5 * ((n * 8 + 4) div 5))"
    by (rule of_nat_mono)
  then show "real n * 8 / 5 \<le> real_of_int (int ((n * 8 + 4) div 5))"
    by simp
qed

lemma unat_to_base32z_size:
  assumes "unat n * 8 + 4 < 2 ^ 64"
  shows "unat (to_base32z_size n) = (unat n * 8 + 4) div 5"
proof -
  have a: "unat (n * 8) = unat n * 8"
    using assms by (simp add: unat_word_ariths)
  have b: "unat (n * 8 + 4) = unat n * 8 + 4"
    using assms a by (simp add: unat_word_ariths)
  show ?thesis
    by (simp add: to_base32z_size_def unat_div b)
qed

lemma unat_times5_mod8: "unat ((k :: size_t) * 5 mod 8) = unat k * 5 mod 8"
proof -
  have "unat (k * 5 mod 8) = (unat k * 5 mod 2 ^ 64) mod 8"
    by (simp add: unat_mod unat_word_ariths)
  also have "\<dots> = unat k * 5 mod 8"
    by (rule mod_mod_cancel) simp
  finally show ?thesis .
qed

lemma from_base32z_size_valid:
  "(k :: size_t) * 5 mod 8 < 5 \<longleftrightarrow> unat k mod 8 \<notin> {1, 3, 6}"
proof -
  have "k * 5 mod 8 < 5 \<longleftrightarrow> unat k * 5 mod 8 < 5"
    by (simp add: word_less_nat_alt unat_times5_mod8)
  then show ?thesis
    by (simp only: times5_mod8)
qed

lemma unat_from_base32z_size:
  assumes "unat k * 5 < 2 ^ 64"
  shows "unat (from_base32z_size k) = (if unat k mod 8 \<in> {1, 3, 6} then 0 else unat k * 5 div 8)"
proof -
  have a: "unat (k * 5) = unat k * 5"
    using assms by (simp add: unat_word_ariths)
  show ?thesis
    using from_base32z_size_valid [of k]
    by (simp add: from_base32z_size_def Let_def unat_div a)
qed

text \<open>
  Claim C7, as amended.  For every byte count \<open>n\<close> whose bit count \<open>8 n + 4\<close> fits the
  64-bit \<^verbatim>\<open>size_t\<close>, \<^verbatim>\<open>to_base32z_size(n)\<close> is the ceiling of \<open>8 n / 5\<close>; in particular
  \<^verbatim>\<open>to_base32z_size(2) == 4\<close>.
\<close>

theorem to_base32z_size_ceiling:
  assumes "unat n * 8 + 4 < 2 ^ 64"
  shows "int (unat (to_base32z_size n)) = \<lceil>real (unat n) * 8 / 5\<rceil> \<and> to_base32z_size 2 = 4"
proof -
  have "int (unat (to_base32z_size n)) = \<lceil>real (unat n) * 8 / 5\<rceil>"
    unfolding ceiling_8n_div_5 unat_to_base32z_size [OF assms] ..
  moreover have "to_base32z_size 2 = 4"
    by (simp add: to_base32z_size_def)
  ultimately show ?thesis ..
qed

theorem to_base32z_size_ceiling_witness:
  "unat (7 :: size_t) * 8 + 4 < 2 ^ 64 \<and>
   int (unat (to_base32z_size 7)) = \<lceil>real (unat (7 :: size_t)) * 8 / 5\<rceil> \<and>
   unat (to_base32z_size 7) = 12"
proof -
  have h: "unat (7 :: size_t) * 8 + 4 < 2 ^ 64"
    by simp
  have "unat (to_base32z_size 7) = 12"
    by (simp add: to_base32z_size_def)
  then show ?thesis
    using h to_base32z_size_ceiling [OF h] by blast
qed

text \<open>
  The claim as written, for every \<^verbatim>\<open>size_t\<close> byte count, fails where \<open>8 n\<close> wraps around:
  \<^verbatim>\<open>to_base32z_size(2^61)\<close> is 0.
\<close>

theorem to_base32z_size_ceiling_counterexample:
  "to_base32z_size (2 ^ 61) = 0 \<and>
   int (unat (to_base32z_size (2 ^ 61))) \<noteq> \<lceil>real (unat (2 ^ 61 :: size_t)) * 8 / 5\<rceil>"
proof -
  have z: "to_base32z_size (2 ^ 61) = 0"
    by (simp add: to_base32z_size_def)
  have "\<lceil>real (unat (2 ^ 61 :: size_t)) * 8 / 5\<rceil> = int ((unat (2 ^ 61 :: size_t) * 8 + 4) div 5)"
    by (rule ceiling_8n_div_5)
  then have "\<lceil>real (unat (2 ^ 61 :: size_t)) * 8 / 5\<rceil> \<noteq> int 0"
    by (simp only: of_nat_eq_iff) simp
  then show ?thesis
    unfolding z by (simp only: unat_0) simp
qed

text \<open>
  Claim C8, as amended.  For every symbol count \<open>k\<close> whose bit count \<open>5 k\<close> fits the 64-bit
  \<^verbatim>\<open>size_t\<close>, with \<open>bits = 5 k\<close>: \<^verbatim>\<open>from_base32z_size(k)\<close> returns \<open>bits div 8\<close> when
  \<open>bits mod 8 < 5\<close>, and returns 0, the invalid-length marker, otherwise.  For every \<open>k\<close>,
  \<open>bits mod 8 < 5\<close> is the same as \<open>k mod 8\<close> not being 1, 3 or 6, for the number \<open>5 k\<close> as
  for the 64-bit product; \<^verbatim>\<open>from_base32z_size(k)\<close> returns 0 when \<open>k mod 8\<close> is 1, 3 or 6, and
  otherwise returns the 64-bit product \<open>k * 5\<close> divided by 8 (which is also 0 for \<open>k = 0\<close>).
  In particular \<^verbatim>\<open>from_base32z_size(4) == 2\<close>.
\<close>

theorem from_base32z_size_spec:
  "from_base32z_size k = (if unat k mod 8 \<in> {1, 3, 6} then 0 else k * 5 div 8) \<and>
   (k * 5 mod 8 < 5 \<longleftrightarrow> unat k mod 8 \<notin> {1, 3, 6}) \<and>
   (unat k * 5 mod 8 < 5 \<longleftrightarrow> unat k mod 8 \<notin> {1, 3, 6}) \<and>
   from_base32z_size 4 = 2 \<and>
   (unat k * 5 < 2 ^ 64 \<longrightarrow>
      unat (from_base32z_size k) = (if unat k * 5 mod 8 < 5 then unat k * 5 div 8 else 0))"
proof -
  have "from_base32z_size k = (if unat k mod 8 \<in> {1, 3, 6} then 0 else k * 5 div 8)"
    using from_base32z_size_valid [of k] by (simp add: from_base32z_size_def Let_def)
  moreover have "from_base32z_size 4 = 2"
    by (simp add: from_base32z_size_def)
  moreover have "unat (from_base32z_size k) = (if unat k * 5 mod 8 < 5 then unat k * 5 div 8 else 0)"
    if "unat k * 5 < 2 ^ 64"
    using unat_from_base32z_size [OF that] times5_mod8 [of "unat k"] by simp
  ultimately show ?thesis
    using from_base32z_size_valid [of k] times5_mod8 [of "unat k"] by blast
qed

theorem from_base32z_size_spec_witness:
  "unat (12 :: size_t) * 5 < 2 ^ 64 \<and> unat (from_base32z_size 12) = 7 \<and>
   unat (11 :: size_t) * 5 < 2 ^ 64 \<and> unat (from_base32z_size 11) = 0 \<and>
   unat (0 :: size_t) * 5 < 2 ^ 64 \<and> unat (from_base32z_size 0) = 0"
  using from_base32z_size_spec [of 12] from_base32z_size_spec [of 11]
    from_base32z_size_spec [of 0]
  by simp

text \<open>
  The claim as written, with \<open>bits = k * 5\<close> a number, fails where the product wraps
  around: for \<open>k = 2^63\<close> the code returns \<open>2^60\<close>, not \<open>5 * 2^63 div 8\<close>.
\<close>

theorem from_base32z_size_counterexample:
  "unat (2 ^ 63 :: size_t) mod 8 \<notin> {1, 3, 6} \<and>
   unat (from_base32z_size (2 ^ 63)) = 2 ^ 60 \<and>
   unat (from_base32z_size (2 ^ 63)) \<noteq> unat (2 ^ 63 :: size_t) * 5 div 8"
  by (simp add: from_base32z_size_def)

text \<open>
  Claim C9, as amended.  For every byte count \<open>n\<close> whose bit count \<open>8 n + 4\<close> fits the
  64-bit \<^verbatim>\<open>size_t\<close>, \<^verbatim>\<open>from_base32z_size(to_base32z_size(n)) == n\<close>.
\<close>

theorem size_roundtrip:
  assumes "unat n * 8 + 4 < 2 ^ 64"
  shows "from_base32z_size (to_base32z_size n) = n"
proof -
  let ?m = "to_base32z_size n"
  have m: "unat ?m = (unat n * 8 + 4) div 5"
    using assms by (rule unat_to_base32z_size)
  have "unat ?m * 5 \<le> unat n * 8 + 4"
    unfolding m by simp
  then have "unat ?m * 5 < 2 ^ 64"
    using assms by simp
  then have "unat (from_base32z_size ?m) =
      (if unat ?m mod 8 \<in> {1, 3, 6} then 0 else unat ?m * 5 div 8)"
    by (rule unat_from_base32z_size)
  also have "\<dots> = unat n"
    unfolding m using encoded_length_roundtrip [of "unat n"] by simp
  finally show ?thesis
    by (simp only: word_unat_eq_iff)
qed

theorem size_roundtrip_witness:
  "unat (3 :: size_t) * 8 + 4 < 2 ^ 64 \<and> to_base32z_size 3 = 5 \<and>
   from_base32z_size (to_base32z_size 3) = 3"
proof -
  have h: "unat (3 :: size_t) * 8 + 4 < 2 ^ 64"
    by simp
  have "to_base32z_size 3 = 5"
    by (simp add: to_base32z_size_def)
  then show ?thesis
    using h size_roundtrip [OF h] by simp
qed

text \<open>
  The claim as written, for every \<open>n\<close>, fails where \<open>8 n\<close> wraps around: the encoded
  size of \<open>2^61\<close> bytes is computed as 0, which decodes to 0 bytes.
\<close>

theorem size_roundtrip_counterexample:
  "from_base32z_size (to_base32z_size (2 ^ 61)) = 0 \<and>
   from_base32z_size (to_base32z_size (2 ^ 61)) \<noteq> 2 ^ 61"
  by (simp add: from_base32z_size_def to_base32z_size_def)

section \<open>The lookup tables\<close>

lemma length_to_b32z_lut: "length to_b32z_lut = 32"
  by (simp add: to_b32z_lut_def)

text \<open>The inverse table the constructor's loop builds.\<close>

lemma from_b32z_lut_explicit [code]:
  "from_b32z_lut =
     [0, 0, 0, 0, 0, 0, 0, 0, 0, 0, 0, 0, 0, 0, 0, 0, 0, 0, 0, 0, 0, 0, 0, 0, 0, 0, 
     0, 0, 0, 0, 0, 0, 0, 0, 0, 0, 0, 0, 0, 0, 0, 0, 0, 0, 0, 0, 0, 0, 0, 18, 0, 25, 
     26, 27, 30, 29, 7, 31, 0, 0, 0, 0, 0, 0, 0, 24, 1, 12, 3, 8, 5, 6, 28, 21, 9, 
     10, 0, 11, 2, 16, 13, 14, 4, 22, 17, 19, 0, 20, 15, 0, 23, 0, 0, 0, 0, 0, 0, 
     24, 1, 12, 3, 8, 5, 6, 28, 21, 9, 10, 0, 11, 2, 16, 13, 14, 4, 22, 17, 19, 0, 
     20, 15, 0, 23, 0, 0, 0, 0, 0, 0, 0, 0, 0, 0, 0, 0, 0, 0, 0, 0, 0, 0, 0, 0, 0, 
     0, 0, 0, 0, 0, 0, 0, 0, 0, 0, 0, 0, 0, 0, 0, 0, 0, 0, 0, 0, 0, 0, 0, 0, 0, 0, 
     0, 0, 0, 0, 0, 0, 0, 0, 0, 0, 0, 0, 0, 0, 0, 0, 0, 0, 0, 0, 0, 0, 0, 0, 0, 0, 
     0, 0, 0, 0, 0, 0, 0, 0, 0, 0, 0, 0, 0, 0, 0, 0, 0, 0, 0, 0, 0, 0, 0, 0, 0, 0, 
     0, 0, 0, 0, 0, 0, 0, 0, 0, 0, 0, 0, 0, 0, 0, 0, 0, 0, 0, 0, 0, 0, 0, 0, 0, 0, 
     0, 0, 0, 0, 0, 0, 0, 0]"
  by code_simp

lemma length_from_b32z_lut: "length from_b32z_lut = 256"
  unfolding from_b32z_lut_explicit by simp

lemma map_ascii_upper_lut: "map ascii_upper to_b32z_lut = ''YBNDRFG8EJKMCPQXOT1UWISZA345H769''"
  by code_simp

lemma alphabet_member_explicit [code]:
  "alphabet_member c \<longleftrightarrow> c \<in> set ''ybndrfg8ejkmcpqxot1uwisza345h769YBNDRFGEJKMCPQXOTUWISZAH''"
proof -
  have "alphabet_member c \<longleftrightarrow> c \<in> set to_b32z_lut \<union> set (map ascii_upper to_b32z_lut)"
    unfolding alphabet_member_def by auto
  also have "\<dots> \<longleftrightarrow> c \<in> set ''ybndrfg8ejkmcpqxot1uwisza345h769YBNDRFGEJKMCPQXOTUWISZAH''"
    unfolding map_ascii_upper_lut unfolding to_b32z_lut_def by auto
  finally show ?thesis .
qed

lemma from_b32z_less_32: "from_b32z c < 32"
proof -
  have "list_all (\<lambda>v. v < 32) from_b32z_lut"
    unfolding from_b32z_lut_explicit by simp
  moreover have "of_char c < length from_b32z_lut"
    by (simp add: length_from_b32z_lut)
  ultimately show ?thesis
    unfolding from_b32z_def by (simp only: list_all_length)
qed

lemma from_b32z_to_b32z_lut: "map from_b32z to_b32z_lut = map of_nat [0..<32]"
  by code_simp

lemma from_b32z_nth_lut:
  assumes "v < 32"
  shows "from_b32z (to_b32z_lut ! v) = of_nat v"
proof -
  have "map from_b32z to_b32z_lut ! v = map of_nat [0..<32] ! v"
    by (simp only: from_b32z_to_b32z_lut)
  then show ?thesis
    using assms by (simp add: length_to_b32z_lut del: upt_Suc)
qed

text \<open>
  The test of \<^verbatim>\<open>is_base32z\<close>, a zero table entry for a character other than \<^verbatim>\<open>y\<close> and
  \<^verbatim>\<open>Y\<close>, rejects exactly the characters outside the alphabet.
\<close>

lemma valid_char_iff:
  "\<not> (from_b32z c = 0 \<and> \<not> (c = CHR ''y'' \<or> c = CHR ''Y'')) \<longleftrightarrow> alphabet_member c"
proof -
  have "\<forall>c. \<not> (from_b32z c = 0 \<and> \<not> (c = CHR ''y'' \<or> c = CHR ''Y'')) \<longleftrightarrow> alphabet_member c"
    by code_simp
  then show ?thesis ..
qed

lemma from_b32z_upper:
  "alphabet_member c \<Longrightarrow>
     alphabet_member (ascii_upper c) \<and> from_b32z (ascii_upper c) = from_b32z c"
proof -
  have "list_all (\<lambda>c. alphabet_member (ascii_upper c) \<and> from_b32z (ascii_upper c) = from_b32z c)
      ''ybndrfg8ejkmcpqxot1uwisza345h769YBNDRFGEJKMCPQXOTUWISZAH''"
    by code_simp
  then show "alphabet_member c \<Longrightarrow>
      alphabet_member (ascii_upper c) \<and> from_b32z (ascii_upper c) = from_b32z c"
    unfolding alphabet_member_explicit [of c] list_all_iff by blast
qed

lemma from_b32z_zero: "\<not> alphabet_member c \<Longrightarrow> from_b32z c = 0"
  using valid_char_iff [of c] by blast

lemma lut_alphabet_member: "c \<in> set to_b32z_lut \<Longrightarrow> alphabet_member c"
  unfolding alphabet_member_def by blast

section \<open>The validator\<close>

lemma is_base32z_scan_eq:
  "is_base32z_scan random s count =
     (if \<forall>c \<in> set s. alphabet_member c
      then Some (if random then count else count + of_nat (length s)) else None)"
proof (induction s arbitrary: count)
  case Nil
  show ?case
    by simp
next
  case (Cons c s)
  show ?case
  proof (cases "alphabet_member c")
    case True
    then have "\<not> (from_b32z c = 0 \<and> \<not> (c = CHR ''y'' \<or> c = CHR ''Y''))"
      by (simp only: valid_char_iff)
    then show ?thesis
      using True by (simp add: Cons.IH add.assoc)
  next
    case False
    then have "from_b32z c = 0 \<and> \<not> (c = CHR ''y'' \<or> c = CHR ''Y'')"
      using valid_char_iff [of c] by blast
    then show ?thesis
      using False by simp
  qed
qed

lemma unat_of_nat_mod8: "unat ((of_nat n :: size_t) mod 8) = n mod 8"
proof -
  have "unat ((of_nat n :: size_t) mod 8) = (n mod 2 ^ 64) mod 8"
    by (simp add: unat_mod unat_of_nat)
  also have "\<dots> = n mod 8"
    by (rule mod_mod_cancel) simp
  finally show ?thesis .
qed

lemma unat_of_nat_small: "unat (of_nat (n mod 8) :: size_t) = n mod 8"
proof -
  have "n mod 8 < 8"
    by simp
  then have "n mod 8 < 2 ^ 64"
    by (rule less_trans) simp
  then show ?thesis
    by (simp add: unat_of_nat)
qed

lemma count_is_136:
  fixes w :: size_t
  shows "w = 1 \<or> w = 3 \<or> w = 6 \<longleftrightarrow> unat w \<in> {1, 3, 6}"
  by (simp add: word_unat_eq_iff)

lemma is_base32z_iff:
  "is_base32z random s \<longleftrightarrow>
     (\<forall>c \<in> set s. alphabet_member c) \<and> length s mod 8 \<notin> {1, 3, 6}"
proof -
  have k1: "(of_nat (length s mod 8) :: size_t) = 1 \<or> (of_nat (length s mod 8) :: size_t) = 3
      \<or> (of_nat (length s mod 8) :: size_t) = 6 \<longleftrightarrow> length s mod 8 \<in> {1, 3, 6}"
    unfolding count_is_136 unat_of_nat_small ..
  have k2: "(of_nat (length s) :: size_t) mod 8 = 1 \<or> (of_nat (length s) :: size_t) mod 8 = 3
      \<or> (of_nat (length s) :: size_t) mod 8 = 6 \<longleftrightarrow> length s mod 8 \<in> {1, 3, 6}"
    unfolding count_is_136 unat_of_nat_mod8 ..
  have t: "is_base32z True s \<longleftrightarrow>
     (\<forall>c \<in> set s. alphabet_member c) \<and> length s mod 8 \<notin> {1, 3, 6}"
    unfolding is_base32z_def Let_def is_base32z_scan_eq using k1 by auto
  have f: "is_base32z False s \<longleftrightarrow>
     (\<forall>c \<in> set s. alphabet_member c) \<and> length s mod 8 \<notin> {1, 3, 6}"
    unfolding is_base32z_def Let_def is_base32z_scan_eq using k2 by auto
  show ?thesis
    using t f by (cases random) simp_all
qed

text \<open>
  Claim C3.  For either kind of iterator, \<^verbatim>\<open>is_base32z\<close> of a character sequence of length
  \<open>k\<close> is true if and only if every character is in the alphabet without regard to case
  and \<open>k mod 8\<close> is not 1, 3 or 6; so \<^verbatim>\<open>is_base32z("9990!")\<close> is false, and so is
  \<^verbatim>\<open>is_base32z\<close> of any string of a length congruent to 1 modulo 8.
\<close>

theorem is_base32z_spec:
  "(is_base32z random s \<longleftrightarrow>
      (\<forall>c \<in> set s. alphabet_member c) \<and> length s mod 8 \<notin> {1, 3, 6}) \<and>
   \<not> is_base32z random ''9990!'' \<and>
   (length s mod 8 = 1 \<longrightarrow> \<not> is_base32z random s)"
proof -
  have "\<not> alphabet_member (CHR ''!'')"
    by code_simp
  then have "\<not> is_base32z random ''9990!''"
    unfolding is_base32z_iff by simp
  then show ?thesis
    unfolding is_base32z_iff [of random s] by simp
qed

theorem is_base32z_spec_witness:
  "list_all alphabet_member ''yBn8'' \<and> length ''yBn8'' mod 8 \<notin> {1, 3, 6 :: nat} \<and>
   is_base32z True ''yBn8'' \<and> is_base32z False ''yBn8'' \<and>
   length ''ybndrfg8e'' mod 8 = 1 \<and> list_all alphabet_member ''ybndrfg8e'' \<and>
   \<not> is_base32z True ''ybndrfg8e'' \<and> \<not> is_base32z False ''ybndrfg8e''"
proof -
  have a: "list_all alphabet_member ''yBn8''"
    by code_simp
  have b: "list_all alphabet_member ''ybndrfg8e''"
    by code_simp
  show ?thesis
    using a b is_base32z_spec [of True "''yBn8''"] is_base32z_spec [of False "''yBn8''"]
      is_base32z_spec [of True "''ybndrfg8e''"] is_base32z_spec [of False "''ybndrfg8e''"]
    by (simp add: list_all_iff)
qed

section \<open>Bit streams of words\<close>

lemma length_bits_of [simp]: "length (bits_of n w) = n"
  by (simp add: bits_of_def)

lemma nth_bits_of: "i < n \<Longrightarrow> bits_of n w ! i = bit w (n - 1 - i)"
  by (simp add: bits_of_def rev_nth)

lemma bits_of_0 [simp]: "bits_of 0 w = []"
  by (simp add: bits_of_def)

lemma bits_of_zero_word: "bits_of n 0 = replicate n False"
  by (rule nth_equalityI) (simp_all add: nth_bits_of)

lemma bits_of_ucast:
  fixes w :: "'a::len word"
  assumes "n \<le> LENGTH('a)" and "n \<le> LENGTH('b::len)"
  shows "bits_of n (ucast w :: 'b word) = bits_of n w"
  by (rule nth_equalityI) (use assms in \<open>auto simp: nth_bits_of bit_ucast_iff\<close>)

lemma bits_of_and_mask: "bits_of n (w AND mask n) = bits_of n w"
  by (rule nth_equalityI)
     (auto simp: nth_bits_of bit_and_iff bit_mask_iff dest: bit_imp_le_length)

lemma drop_bits_of: "k \<le> n \<Longrightarrow> drop k (bits_of n w) = bits_of (n - k) w"
  by (rule nth_equalityI) (auto simp: nth_bits_of)

lemma take_bits_of:
  fixes w :: "'a::len word"
  assumes "k \<le> n"
  shows "take k (bits_of n w) = bits_of k (drop_bit (n - k) w)"
proof (rule nth_equalityI)
  show "length (take k (bits_of n w)) = length (bits_of k (drop_bit (n - k) w))"
    using assms by simp
next
  fix i
  assume "i < length (take k (bits_of n w))"
  then have i: "i < k"
    by simp
  then have "n - k + (k - 1 - i) = n - 1 - i"
    using assms by simp
  then show "take k (bits_of n w) ! i = bits_of k (drop_bit (n - k) w) ! i"
    using i assms by (simp add: nth_bits_of bit_drop_bit_eq)
qed

lemma bit_of_take_bit_self:
  assumes "take_bit n w = w" and "bit w k"
  shows "k < n"
proof -
  have "bit (take_bit n w) k"
    using assms by simp
  then show ?thesis
    by (simp add: bit_take_bit_iff)
qed

lemma bits_of_append:
  fixes w u :: "'a::len word"
  assumes u: "take_bit m u = u" and len: "n + m \<le> LENGTH('a)"
  shows "bits_of (n + m) (push_bit m w OR u) = bits_of n w @ bits_of m u"
proof (rule nth_equalityI)
  show "length (bits_of (n + m) (push_bit m w OR u)) = length (bits_of n w @ bits_of m u)"
    by simp
next
  fix i
  assume "i < length (bits_of (n + m) (push_bit m w OR u))"
  then have i: "i < n + m"
    by simp
  show "bits_of (n + m) (push_bit m w OR u) ! i = (bits_of n w @ bits_of m u) ! i"
  proof (cases "i < n")
    case True
    then have k: "m \<le> n + m - 1 - i" "n + m - 1 - i - m = n - 1 - i" "n + m - 1 - i < LENGTH('a)"
      using len by simp_all
    have "\<not> bit u (n + m - 1 - i)"
      using bit_of_take_bit_self [OF u] k(1) by (meson not_le)
    then show ?thesis
      using True i k
      by (simp add: nth_bits_of nth_append bit_or_iff bit_push_bit_iff)
  next
    case False
    then have k: "n + m - 1 - i < m" "n + m - 1 - i = m - 1 - (i - n)" "i - n < m"
      using i by simp_all
    show ?thesis
      using False i k(1,3)
      by (simp add: nth_bits_of nth_append bit_or_iff bit_push_bit_iff) (simp add: ac_simps)
  qed
qed

lemma bits_of_push_bit:
  fixes w :: "'a::len word"
  assumes "n + m \<le> LENGTH('a)"
  shows "bits_of (n + m) (push_bit m w) = bits_of n w @ replicate m False"
  using bits_of_append [of m 0 n w] assms by (simp add: bits_of_zero_word)

lemma take_bit_push_or:
  fixes w u :: "'a::len word"
  assumes "take_bit n w = w" and "take_bit m u = u"
  shows "take_bit (n + m) (push_bit m w OR u) = push_bit m w OR u"
proof (rule bit_eqI)
  fix k
  assume "possible_bit TYPE('a word) k"
  have "bit w (k - m) \<Longrightarrow> k - m < n" and "bit u k \<Longrightarrow> k < m"
    using assms bit_of_take_bit_self by blast+
  then show "bit (take_bit (n + m) (push_bit m w OR u)) k = bit (push_bit m w OR u) k"
    by (auto simp: bit_take_bit_iff bit_or_iff bit_push_bit_iff)
qed

lemma take_bit_and_mask: "take_bit n (w AND mask n) = w AND mask n"
  by (rule bit_eqI) (auto simp: bit_take_bit_iff bit_and_iff bit_mask_iff)

lemma take_bit_ucast_byte: "take_bit 8 (ucast (b :: byte) :: 64 word) = ucast b"
  by (rule bit_eqI) (auto simp: bit_take_bit_iff bit_ucast_iff dest: bit_imp_le_length)

lemma take_bit_drop_bit_self:
  fixes w :: "'a::len word"
  assumes "take_bit n w = w" and "k \<le> n"
  shows "take_bit (n - k) (drop_bit k w) = drop_bit k w"
proof (rule bit_eqI)
  fix j
  assume "possible_bit TYPE('a word) j"
  have "bit w (k + j) \<Longrightarrow> k + j < n"
    using assms(1) bit_of_take_bit_self by blast
  then show "bit (take_bit (n - k) (drop_bit k w)) j = bit (drop_bit k w) j"
    using assms(2) by (auto simp: bit_take_bit_iff bit_drop_bit_eq)
qed

lemma unat_less_of_take_bit:
  fixes w :: "'a::len word"
  assumes "take_bit n w = w"
  shows "unat w < 2 ^ n"
proof -
  have "unat w = unat (take_bit n w)"
    using assms by simp
  also have "\<dots> = take_bit n (unat w)"
    by (simp add: unsigned_take_bit_eq)
  also have "\<dots> < 2 ^ n"
    by (simp add: take_bit_eq_mod)
  finally show ?thesis .
qed

lemma byte_of_bits_of: "byte_of_bits (bits_of 8 b) = b"
proof -
  have "byte_of_bits (bits_of 8 b) = horner_sum of_bool 2 (map (bit b) [0..<8])"
    by (simp add: byte_of_bits_def bits_of_def rev_map del: upt_Suc)
  also have "\<dots> = take_bit 8 b"
    by (rule horner_sum_bit_eq_take_bit)
  also have "\<dots> = b"
    by (rule take_bit_word_eq_self) simp
  finally show ?thesis .
qed

lemma low_mask_eq: "0 \<le> n \<Longrightarrow> n < 31 \<Longrightarrow> low_mask n = Some (mask (nat n))"
  by (simp add: low_mask_def mask_eq_exp_minus_1)

section \<open>The encoder\<close>

lemma pad5_add5: "pad5 (5 + n) = pad5 n"
  by (simp add: pad5_def)

lemma pad5_small: "0 < k \<Longrightarrow> k < 5 \<Longrightarrow> pad5 k = 5 - k"
  by (simp add: pad5_def)

lemma pad5_less: "pad5 n < 5"
  by (simp add: pad5_def)

lemma padded_Nil: "padded [] = []"
  by (simp add: padded_def pad5_def)

lemma padded_5: "length a = 5 \<Longrightarrow> padded a = a"
  by (simp add: padded_def pad5_def)

lemma padded_append5: "length a = 5 \<Longrightarrow> padded (a @ bs) = a @ padded bs"
  by (simp add: padded_def pad5_add5)

lemma padded_small: "0 < length a \<Longrightarrow> length a < 5 \<Longrightarrow> padded a = a @ replicate (5 - length a) False"
  by (simp add: padded_def pad5_small)

lemma byte_bits_Cons: "byte_bits (b # bs) = bits_of 8 b @ byte_bits bs"
  by (simp add: byte_bits_def)

lemma symbol_bits_Cons: "symbol_bits (c # cs) = bits_of 5 (from_b32z c) @ symbol_bits cs"
  by (simp add: symbol_bits_def)

lemma length_byte_bits: "length (byte_bits bs) = 8 * length bs"
  by (induction bs) (simp_all add: byte_bits_def)

lemma length_symbol_bits: "length (symbol_bits s) = 5 * length s"
  by (induction s) (simp_all add: symbol_bits_def)

text \<open>What \<^verbatim>\<open>operator*\<close> gives in a state that holds at least five bits.\<close>

lemma encoder_deref_spec:
  assumes bits: "e_bits e = int n" and n: "5 \<le> n" "n \<le> 12"
    and r: "take_bit n (e_r e) = e_r e"
  shows "\<exists>c. encoder_deref e = Some c \<and> c \<in> set to_b32z_lut \<and>
    bits_of 5 (from_b32z c) = take 5 (bits_of n (e_r e))"
proof -
  define x where "x = drop_bit (n - 5) (e_r e)"
  define v :: byte where "v = ucast x"
  have sh: "shift_right (e_r e) (e_bits e - 5) = Some x"
    using n by (simp add: shift_right_def bits x_def nat_diff_distrib)
  have "take_bit (n - (n - 5)) x = x"
    unfolding x_def using r by (rule take_bit_drop_bit_self) simp
  then have x5: "take_bit 5 x = x"
    using n by simp
  have "take_bit 5 v = v"
  proof (rule bit_eqI)
    fix k
    have "bit x k \<Longrightarrow> k < 5"
      using x5 by (rule bit_of_take_bit_self)
    then show "bit (take_bit 5 v) k = bit v k"
      by (auto simp: v_def bit_take_bit_iff bit_ucast_iff)
  qed
  then have "unat v < 2 ^ 5"
    by (rule unat_less_of_take_bit)
  then have v32: "unat v < 32"
    by simp
  define c where "c = to_b32z_lut ! unat v"
  have "encoder_deref e = Some c"
    using v32 by (simp add: encoder_deref_def sh to_b32z_def v_def c_def)
  moreover have "c \<in> set to_b32z_lut"
    unfolding c_def using v32 by (simp add: length_to_b32z_lut)
  moreover have "from_b32z c = v"
    unfolding c_def using v32 by (simp add: from_b32z_nth_lut)
  moreover have "bits_of 5 v = take 5 (bits_of n (e_r e))"
    unfolding v_def x_def using n by (simp add: bits_of_ucast take_bits_of)
  ultimately show ?thesis
    by simp
qed

text \<open>What \<^verbatim>\<open>operator++\<close> does, case by case.\<close>

lemma encoder_incr_keep:
  assumes "e_bits e = int n" and "5 \<le> n" "n \<le> 12" and "10 \<le> n \<or> e_it e = []"
  shows "encoder_incr e =
    Some \<lparr>e_it = e_it e, e_bits = int (n - 5), e_r = e_r e AND mask (n - 5)\<rparr>"
  using assms
  by (auto simp: encoder_incr_def Let_def low_mask_eq nat_diff_distrib)

lemma encoder_incr_load:
  assumes "e_bits e = int n" and "5 \<le> n" "n < 10" and "e_it e = b0 # b # rest"
  shows "encoder_incr e =
    Some \<lparr>e_it = b # rest, e_bits = int (n - 5 + 8),
      e_r = push_bit 8 (e_r e AND mask (n - 5)) OR ucast b\<rparr>"
  using assms
  by (auto simp: encoder_incr_def Let_def low_mask_eq shift_left_def nat_diff_distrib)

lemma encoder_incr_pad:
  assumes "e_bits e = int n" and "5 < n" "n < 10" and "e_it e = [b0]"
  shows "encoder_incr e =
    Some \<lparr>e_it = [], e_bits = 5, e_r = push_bit (5 - (n - 5)) (e_r e AND mask (n - 5))\<rparr>"
  using assms
  by (auto simp: encoder_incr_def Let_def low_mask_eq shift_left_def nat_diff_distrib)

lemma encoder_incr_last:
  assumes "e_bits e = 5" and "e_it e = [b0]"
  shows "encoder_incr e = Some \<lparr>e_it = [], e_bits = 0, e_r = e_r e AND mask 0\<rparr>"
  using assms
  by (auto simp: encoder_incr_def Let_def low_mask_def)

lemma encoder_invI:
  assumes "b = int m" and "take_bit m r = r"
    and "if it = [] then m = 0 \<or> m = 5 else 5 \<le> m \<and> m \<le> 12"
  shows "encoder_inv \<lparr>e_it = it, e_bits = b, e_r = r\<rparr>"
  using assms by (simp add: encoder_inv_def split: if_splits)

lemma encoder_stream_eq:
  assumes "b = int m"
  shows "encoder_stream \<lparr>e_it = it, e_bits = b, e_r = r\<rparr> = bits_of m r @ byte_bits (tl it)"
  using assms by (simp add: encoder_stream_def)

lemma encoder_step:
  assumes inv: "encoder_inv e" and ne: "\<not> encoder_at_end e"
  shows "\<exists>c e'. encoder_deref e = Some c \<and> encoder_incr e = Some e' \<and> encoder_inv e' \<and>
    c \<in> set to_b32z_lut \<and>
    padded (encoder_stream e) = bits_of 5 (from_b32z c) @ padded (encoder_stream e')"
proof -
  define n where "n = nat (e_bits e)"
  have bits: "e_bits e = int n" and n: "5 \<le> n" "n \<le> 12"
    using inv ne by (auto simp: encoder_inv_def encoder_at_end_def n_def split: if_splits)
  have nil5: "n = 5" if "e_it e = []"
    using inv ne that by (auto simp: encoder_inv_def encoder_at_end_def n_def)
  have r: "take_bit n (e_r e) = e_r e"
    using inv by (simp add: encoder_inv_def n_def)
  define p where "p = bits_of n (e_r e)"
  define r1 where "r1 = e_r e AND mask (n - 5)"
  have r1: "take_bit (n - 5) r1 = r1"
    unfolding r1_def by (rule take_bit_and_mask)
  have p1: "bits_of (n - 5) r1 = drop 5 p"
    unfolding r1_def p_def using n by (simp add: bits_of_and_mask drop_bits_of)
  have lp: "length (take 5 p) = 5"
    unfolding p_def using n by simp
  obtain c where c: "encoder_deref e = Some c" "c \<in> set to_b32z_lut"
    "bits_of 5 (from_b32z c) = take 5 p"
    unfolding p_def using encoder_deref_spec [OF bits n r] by blast
  have split: "p = take 5 p @ drop 5 p"
    by simp
  have stream: "padded (encoder_stream e) = take 5 p @ padded (drop 5 p @ byte_bits (tl (e_it e)))"
  proof -
    have "encoder_stream e = take 5 p @ (drop 5 p @ byte_bits (tl (e_it e)))"
      by (simp add: encoder_stream_def bits p_def)
    then show ?thesis
      using lp by (simp only: padded_append5)
  qed
  have "\<exists>e'. encoder_incr e = Some e' \<and> encoder_inv e' \<and>
    padded (encoder_stream e') = padded (drop 5 p @ byte_bits (tl (e_it e)))"
  proof (cases "10 \<le> n \<or> e_it e = []")
    case True
    let ?e' = "\<lparr>e_it = e_it e, e_bits = int (n - 5), e_r = r1\<rparr>"
    have "encoder_incr e = Some ?e'"
      unfolding r1_def using bits n True by (rule encoder_incr_keep)
    moreover have "encoder_inv ?e'"
      by (rule encoder_invI [where m = "n - 5"]) (use True n r1 nil5 in auto)
    moreover have "encoder_stream ?e' = drop 5 p @ byte_bits (tl (e_it e))"
      by (simp add: encoder_stream_eq [where m = "n - 5"] p1)
    ultimately show ?thesis
      by simp
  next
    case False
    then have n10: "n < 10" and "e_it e \<noteq> []"
      by simp_all
    then obtain b0 bs where it: "e_it e = b0 # bs"
      by (cases "e_it e") simp_all
    show ?thesis
    proof (cases bs)
      case (Cons b rest)
      let ?e' = "\<lparr>e_it = b # rest, e_bits = int (n - 5 + 8), e_r = push_bit 8 r1 OR ucast b\<rparr>"
      have "encoder_incr e = Some ?e'"
        unfolding r1_def using bits n(1) n10 it [unfolded Cons] by (rule encoder_incr_load)
      moreover have "take_bit (n - 5 + 8) (push_bit 8 r1 OR ucast b) = push_bit 8 r1 OR ucast b"
        using r1 take_bit_ucast_byte by (rule take_bit_push_or)
      then have "encoder_inv ?e'"
        by (rule encoder_invI [where m = "n - 5 + 8", rotated]) (use n n10 in simp_all)
      moreover have "bits_of (n - 5 + 8) (push_bit 8 r1 OR (ucast b :: uint_fast16_t)) =
          bits_of (n - 5) r1 @ bits_of 8 (ucast b :: uint_fast16_t)"
        using take_bit_ucast_byte by (rule bits_of_append) (use n10 in simp)
      then have "encoder_stream ?e' = drop 5 p @ byte_bits (tl (e_it e))"
        by (simp add: encoder_stream_eq [where m = "n - 5 + 8"] p1 it Cons byte_bits_Cons
            bits_of_ucast)
      ultimately show ?thesis
        by simp
    next
      case Nil
      show ?thesis
      proof (cases "n = 5")
        case True
        let ?e' = "\<lparr>e_it = [], e_bits = 0, e_r = e_r e AND mask 0\<rparr>"
        have "encoder_incr e = Some ?e'"
          using bits it True Nil by (intro encoder_incr_last) simp_all
        moreover have "encoder_inv ?e'"
          by (rule encoder_invI [where m = 0]) simp_all
        moreover have "encoder_stream ?e' = []"
          by (simp add: encoder_stream_eq [where m = 0] byte_bits_def)
        moreover have "drop 5 p @ byte_bits (tl (e_it e)) = []"
          using True by (simp add: p_def it Nil byte_bits_def)
        ultimately show ?thesis
          by simp
      next
        case False
        then have n5: "5 < n"
          using n by simp
        let ?e' = "\<lparr>e_it = [], e_bits = 5, e_r = push_bit (5 - (n - 5)) r1\<rparr>"
        have "encoder_incr e = Some ?e'"
          unfolding r1_def using bits n5 n10 it [unfolded Nil] by (rule encoder_incr_pad)
        moreover have "take_bit (n - 5 + (5 - (n - 5))) (push_bit (5 - (n - 5)) r1 OR 0) =
            push_bit (5 - (n - 5)) r1 OR 0"
          using r1 by (rule take_bit_push_or) simp
        then have "encoder_inv ?e'"
          by (intro encoder_invI [where m = 5]) (use n5 n10 in simp_all)
        moreover have "bits_of (n - 5 + (5 - (n - 5))) (push_bit (5 - (n - 5)) r1) =
            bits_of (n - 5) r1 @ replicate (5 - (n - 5)) False"
          by (rule bits_of_push_bit) (use n10 in simp)
        then have "bits_of 5 (push_bit (5 - (n - 5)) r1) = drop 5 p @ replicate (5 - (n - 5)) False"
          using n5 n10 by (simp add: p1)
        then have "padded (encoder_stream ?e') = padded (drop 5 p @ byte_bits (tl (e_it e)))"
          using n5 n10
          by (simp add: encoder_stream_eq [where m = 5] byte_bits_def it Nil padded_5
              padded_small p_def)
        ultimately show ?thesis
          by simp
      qed
    qed
  qed
  then show ?thesis
    using c stream by auto
qed

lemma encode_copy_spec:
  "encoder_inv e \<Longrightarrow>
     \<exists>s. encode_copy e = Some s \<and> set s \<subseteq> set to_b32z_lut \<and>
       symbol_bits s = padded (encoder_stream e)"
proof (induction e rule: encode_copy.induct)
  case (1 e)
  show ?case
  proof (cases "encoder_at_end e")
    case True
    then have "encoder_stream e = []"
      by (simp add: encoder_at_end_def encoder_stream_def byte_bits_def)
    then show ?thesis
      using True by (simp add: encode_copy.simps [of e] padded_Nil symbol_bits_def)
  next
    case False
    obtain c e' where step: "encoder_deref e = Some c" "encoder_incr e = Some e'"
      "encoder_inv e'" "c \<in> set to_b32z_lut"
      "padded (encoder_stream e) = bits_of 5 (from_b32z c) @ padded (encoder_stream e')"
      using encoder_step [OF "1.prems" False] by blast
    obtain s where s: "encode_copy e' = Some s" "set s \<subseteq> set to_b32z_lut"
      "symbol_bits s = padded (encoder_stream e')"
      using "1.IH" [OF False step(1) step(2) step(3)] by blast
    have "encode_copy e = Some (c # s)"
      using False step(1,2) s(1) by (simp add: encode_copy.simps [of e])
    then show ?thesis
      using step(4,5) s(2,3) by (simp add: symbol_bits_Cons)
  qed
qed

lemma new_encoder_inv: "encoder_inv (new_encoder input)"
proof (cases input)
  case Nil
  then show ?thesis
    by (simp add: new_encoder_def encoder_inv_def)
next
  case (Cons b bs)
  then show ?thesis
    by (simp add: new_encoder_def encoder_inv_def take_bit_ucast_byte)
qed

lemma new_encoder_stream: "encoder_stream (new_encoder input) = byte_bits input"
proof (cases input)
  case Nil
  then show ?thesis
    by (simp add: new_encoder_def encoder_stream_def byte_bits_def)
next
  case (Cons b bs)
  then show ?thesis
    by (simp add: new_encoder_def encoder_stream_def byte_bits_Cons bits_of_ucast)
qed

lemma to_base32z_bits:
  "\<exists>s. to_base32z input = Some s \<and> set s \<subseteq> set to_b32z_lut \<and>
     symbol_bits s = padded (byte_bits input)"
  unfolding to_base32z_def
  using encode_copy_spec [OF new_encoder_inv, of input] by (simp only: new_encoder_stream)

lemma padded_length: "length (padded bs) = 5 * ((length bs + 4) div 5)"
proof -
  define q t where "q = length bs div 5" and "t = length bs mod 5"
  have l: "length bs = 5 * q + t" and t: "t < 5"
    by (simp_all add: q_def t_def)
  have a: "pad5 (5 * q + t) = (5 - t) mod 5"
    using t by (simp add: pad5_def)
  have "5 * q + t + 4 = 5 * q + (t + 4)"
    by simp
  then have b: "(length bs + 4) div 5 = q + (t + 4) div 5"
    unfolding l by (simp only: div_mult_self4)
  from t consider "t = 0" | "t = 1" | "t = 2" | "t = 3" | "t = 4"
    by linarith
  then have "5 * q + t + (5 - t) mod 5 = 5 * (q + (t + 4) div 5)"
    by cases simp_all
  then show ?thesis
    unfolding b by (simp add: padded_def a l)
qed

lemma to_base32z_length:
  assumes "to_base32z input = Some s"
  shows "length s = (length input * 8 + 4) div 5"
proof -
  obtain s' where "to_base32z input = Some s'" "symbol_bits s' = padded (byte_bits input)"
    using to_base32z_bits by blast
  then have "symbol_bits s = padded (byte_bits input)"
    using assms by simp
  then have "length (symbol_bits s) = length (padded (byte_bits input))"
    by simp
  then have "5 * length s = 5 * ((8 * length input + 4) div 5)"
    by (simp only: length_symbol_bits padded_length length_byte_bits)
  then show ?thesis
    by (simp add: mult.commute)
qed

section \<open>The decoder\<close>

lemma group8_append8:
  assumes "length a = 8"
  shows "group8 (a @ rest) = byte_of_bits a # group8 rest"
proof -
  obtain b7 b6 b5 b4 b3 b2 b1 b0 where "a = [b7, b6, b5, b4, b3, b2, b1, b0]"
    using assms by (auto simp: numeral_eq_Suc length_Suc_conv)
  then show ?thesis
    by simp
qed

lemma group8_short: "length a < 8 \<Longrightarrow> group8 a = []"
  by (induction a rule: group8.induct) simp_all

lemma group8_step:
  assumes "8 \<le> length p"
  shows "group8 (p @ rest) = byte_of_bits (take 8 p) # group8 (drop 8 p @ rest)"
proof -
  have "group8 (take 8 p @ (drop 8 p @ rest)) = byte_of_bits (take 8 p) # group8 (drop 8 p @ rest)"
    using assms by (intro group8_append8) simp
  then show ?thesis
    by (simp only: append_assoc [symmetric] append_take_drop_id)
qed

lemma length_group8: "length (group8 bs) = length bs div 8"
  by (induction bs rule: group8.induct) simp_all

lemma take_bit_from_b32z:
  "take_bit 5 (ucast (from_b32z c) :: uint_fast16_t) = ucast (from_b32z c)"
proof (rule bit_eqI)
  fix k
  have "from_b32z c < 2 ^ 5"
    using from_b32z_less_32 [of c] by simp
  then have "from_b32z c AND mask 5 = from_b32z c"
    by (rule less_mask_eq)
  then have "take_bit 5 (from_b32z c) = from_b32z c"
    by (simp add: take_bit_eq_mask)
  then have "bit (from_b32z c) k \<Longrightarrow> k < 5"
    by (rule bit_of_take_bit_self)
  then show "bit (take_bit 5 (ucast (from_b32z c) :: uint_fast16_t)) k
      = bit (ucast (from_b32z c) :: uint_fast16_t) k"
    by (auto simp: bit_take_bit_iff bit_ucast_iff)
qed

lemma decoder_invI:
  assumes "b = int m" and "take_bit m x = x"
    and "if it = [] then m < 8 else 8 \<le> m \<and> m \<le> 12"
  shows "decoder_inv \<lparr>d_it = it, d_in = x, d_bits = b\<rparr>"
  using assms by (simp add: decoder_inv_def split: if_splits)

lemma decoder_stream_eq:
  assumes "b = int m"
  shows "decoder_stream \<lparr>d_it = it, d_in = x, d_bits = b\<rparr> = bits_of m x @ symbol_bits (tl it)"
  using assms by (simp add: decoder_stream_def)

text \<open>\<^verbatim>\<open>load_in\<close> appends the five bits of the current symbol.\<close>

lemma load_in_spec:
  assumes "m \<le> 12"
  shows "load_in \<lparr>d_it = c # rest, d_in = x, d_bits = int m\<rparr> =
    Some \<lparr>d_it = c # rest, d_in = push_bit 5 x OR ucast (from_b32z c), d_bits = int (m + 5)\<rparr>"
  by (simp add: load_in_def shift_left_def)

lemma load_in_bits:
  fixes x :: uint_fast16_t
  assumes "m \<le> 12" and "take_bit m x = x"
  shows "bits_of (m + 5) (push_bit 5 x OR ucast (from_b32z c)) = bits_of m x @ bits_of 5 (from_b32z c)"
    and "take_bit (m + 5) (push_bit 5 x OR ucast (from_b32z c)) = push_bit 5 x OR ucast (from_b32z c)"
proof -
  have "bits_of (m + 5) (push_bit 5 x OR ucast (from_b32z c)) =
      bits_of m x @ bits_of 5 (ucast (from_b32z c) :: uint_fast16_t)"
    using take_bit_from_b32z by (rule bits_of_append) (use assms in simp)
  then show "bits_of (m + 5) (push_bit 5 x OR ucast (from_b32z c)) =
      bits_of m x @ bits_of 5 (from_b32z c)"
    by (simp add: bits_of_ucast)
  show "take_bit (m + 5) (push_bit 5 x OR ucast (from_b32z c)) = push_bit 5 x OR ucast (from_b32z c)"
    using assms(2) take_bit_from_b32z by (rule take_bit_push_or)
qed

text \<open>
  \<^verbatim>\<open>load_byte\<close>, entered with at most four bits held and a symbol to read, loads one or two
  symbols and leaves a state of the loop.
\<close>

lemma load_byte_spec:
  fixes x :: uint_fast16_t
  assumes m: "m \<le> 4" and x: "take_bit m x = x" and it: "it \<noteq> []"
  shows "\<exists>d'. load_byte \<lparr>d_it = it, d_in = x, d_bits = int m\<rparr> = Some d' \<and> decoder_inv d' \<and>
    decoder_stream d' = bits_of m x @ symbol_bits it"
proof -
  obtain c rest where it: "it = c # rest"
    using it by (cases it) simp_all
  define x1 where "x1 = push_bit 5 x OR ucast (from_b32z c)"
  have m12: "m \<le> 12"
    using m by simp
  have l1: "load_in \<lparr>d_it = c # rest, d_in = x, d_bits = int m\<rparr> =
      Some \<lparr>d_it = c # rest, d_in = x1, d_bits = int (m + 5)\<rparr>"
    unfolding x1_def using m12 by (rule load_in_spec)
  have b1: "bits_of (m + 5) x1 = bits_of m x @ bits_of 5 (from_b32z c)"
    and t1: "take_bit (m + 5) x1 = x1"
    unfolding x1_def using m12 x by (rule load_in_bits)+
  show ?thesis
  proof (cases "m + 5 < 8")
    case False
    let ?d' = "\<lparr>d_it = c # rest, d_in = x1, d_bits = int (m + 5)\<rparr>"
    have "load_byte \<lparr>d_it = it, d_in = x, d_bits = int m\<rparr> = Some ?d'"
      using False by (simp add: load_byte_def it l1)
    moreover have "decoder_inv ?d'"
      by (rule decoder_invI [where m = "m + 5"]) (use False m t1 in simp_all)
    moreover have "decoder_stream ?d' = bits_of m x @ symbol_bits it"
      by (simp add: decoder_stream_eq [where m = "m + 5"] b1 it symbol_bits_Cons)
    ultimately show ?thesis
      by blast
  next
    case True
    show ?thesis
    proof (cases rest)
      case Nil
      let ?d' = "\<lparr>d_it = [], d_in = x1, d_bits = int (m + 5)\<rparr>"
      have "load_byte \<lparr>d_it = it, d_in = x, d_bits = int m\<rparr> = Some ?d'"
        using True by (simp add: load_byte_def it l1 [unfolded Nil] Nil Let_def)
      moreover have "decoder_inv ?d'"
        by (rule decoder_invI [where m = "m + 5"]) (use True t1 in simp_all)
      moreover have "decoder_stream ?d' = bits_of m x @ symbol_bits it"
        by (simp add: decoder_stream_eq [where m = "m + 5"] b1 it Nil symbol_bits_def)
      ultimately show ?thesis
        by blast
    next
      case (Cons c2 rest2)
      define x2 where "x2 = push_bit 5 x1 OR ucast (from_b32z c2)"
      have m5: "m + 5 \<le> 12"
        using m by simp
      have l2: "load_in \<lparr>d_it = c2 # rest2, d_in = x1, d_bits = int (m + 5)\<rparr> =
          Some \<lparr>d_it = c2 # rest2, d_in = x2, d_bits = int (m + 5 + 5)\<rparr>"
        unfolding x2_def using m5 by (rule load_in_spec)
      have b2: "bits_of (m + 5 + 5) x2 = bits_of (m + 5) x1 @ bits_of 5 (from_b32z c2)"
        and t2: "take_bit (m + 5 + 5) x2 = x2"
        unfolding x2_def using m5 t1 by (rule load_in_bits)+
      let ?d' = "\<lparr>d_it = c2 # rest2, d_in = x2, d_bits = int (m + 5 + 5)\<rparr>"
      have "load_byte \<lparr>d_it = it, d_in = x, d_bits = int m\<rparr> = Some ?d'"
        using True l2 by (simp add: load_byte_def it l1 [unfolded Cons] Cons Let_def)
      moreover have "decoder_inv ?d'"
        by (rule decoder_invI [where m = "m + 5 + 5"]) (use True t2 in simp_all)
      moreover have "decoder_stream ?d' = bits_of m x @ symbol_bits it"
        using b1 b2
        by (simp add: decoder_stream_eq [where m = "m + 5 + 5"] it Cons symbol_bits_Cons)
      ultimately show ?thesis
        by blast
    qed
  qed
qed

lemma decoder_deref_spec:
  assumes bits: "d_bits d = int n" and n: "8 \<le> n" "n \<le> 12"
  shows "decoder_deref d = Some (byte_of_bits (take 8 (bits_of n (d_in d))))"
proof -
  define b :: byte where "b = ucast (drop_bit (n - 8) (d_in d))"
  have "decoder_deref d = Some b"
    using n by (simp add: decoder_deref_def shift_right_def bits b_def nat_diff_distrib)
  moreover have "bits_of 8 b = take 8 (bits_of n (d_in d))"
    unfolding b_def using n by (simp add: bits_of_ucast take_bits_of)
  then have "b = byte_of_bits (take 8 (bits_of n (d_in d)))"
    using byte_of_bits_of [of b] by simp
  ultimately show ?thesis
    by simp
qed

lemma decoder_step:
  assumes inv: "decoder_inv d" and ne: "d_it d \<noteq> []"
  shows "\<exists>b d'. decoder_deref d = Some b \<and> decoder_incr d = Some d' \<and> decoder_inv d' \<and>
    group8 (decoder_stream d) = b # group8 (decoder_stream d')"
proof -
  define n where "n = nat (d_bits d)"
  have bits: "d_bits d = int n" and n: "8 \<le> n" "n \<le> 12"
    using inv ne by (auto simp: decoder_inv_def n_def)
  define p where "p = bits_of n (d_in d)"
  define x1 where "x1 = d_in d AND mask (n - 8)"
  let ?d1 = "\<lparr>d_it = tl (d_it d), d_in = x1, d_bits = int (n - 8)\<rparr>"
  have x1: "take_bit (n - 8) x1 = x1"
    unfolding x1_def by (rule take_bit_and_mask)
  have p1: "bits_of (n - 8) x1 = drop 8 p"
    unfolding x1_def p_def using n by (simp add: bits_of_and_mask drop_bits_of)
  have deref: "decoder_deref d = Some (byte_of_bits (take 8 p))"
    unfolding p_def using bits n by (rule decoder_deref_spec)
  have "group8 (p @ symbol_bits (tl (d_it d))) =
      byte_of_bits (take 8 p) # group8 (drop 8 p @ symbol_bits (tl (d_it d)))"
    by (rule group8_step) (use n in \<open>simp add: p_def\<close>)
  then have g: "group8 (decoder_stream d) =
      byte_of_bits (take 8 p) # group8 (drop 8 p @ symbol_bits (tl (d_it d)))"
    by (simp add: decoder_stream_def bits p_def)
  have d1: "d\<lparr>d_bits := d_bits d - 8, d_in := d_in d AND mask (n - 8), d_it := it\<rparr> =
      \<lparr>d_it = it, d_in = x1, d_bits = int (n - 8)\<rparr>" for it
    using n bits by (cases d) (simp add: x1_def)
  have m: "low_mask (d_bits d - 8) = Some (mask (n - 8))"
    using n by (simp add: low_mask_eq bits nat_diff_distrib)
  have incr: "decoder_incr d = (if tl (d_it d) \<noteq> [] then load_byte ?d1 else Some ?d1)"
    using ne by (simp add: decoder_incr_def Let_def m d1)
  have "\<exists>d'. decoder_incr d = Some d' \<and> decoder_inv d' \<and>
    decoder_stream d' = drop 8 p @ symbol_bits (tl (d_it d))"
  proof (cases "tl (d_it d) = []")
    case True
    have "decoder_inv ?d1"
      by (rule decoder_invI [where m = "n - 8"]) (use True n x1 in simp_all)
    moreover have "decoder_stream ?d1 = drop 8 p @ symbol_bits (tl (d_it d))"
      by (simp add: decoder_stream_eq [where m = "n - 8"] p1 True symbol_bits_def)
    ultimately show ?thesis
      using True incr by simp
  next
    case False
    have "n - 8 \<le> 4"
      using n by simp
    then obtain d' where "load_byte ?d1 = Some d'" "decoder_inv d'"
      "decoder_stream d' = bits_of (n - 8) x1 @ symbol_bits (tl (d_it d))"
      using load_byte_spec [OF _ x1 False] by blast
    then show ?thesis
      using False incr by (simp add: p1)
  qed
  then show ?thesis
    using deref g by auto
qed

lemma decode_loop_spec:
  "decoder_inv d \<Longrightarrow> decode_loop d = Some (group8 (decoder_stream d))"
proof (induction d rule: decode_loop.induct)
  case (1 d)
  show ?case
  proof (cases "d_it d = []")
    case True
    then have "length (decoder_stream d) < 8"
      using "1.prems" by (auto simp: decoder_inv_def decoder_stream_def symbol_bits_def)
    then have "group8 (decoder_stream d) = []"
      by (rule group8_short)
    then show ?thesis
      using True by (simp add: decode_loop.simps [of d])
  next
    case False
    obtain b d' where step: "decoder_deref d = Some b" "decoder_incr d = Some d'"
      "decoder_inv d'" "group8 (decoder_stream d) = b # group8 (decoder_stream d')"
      using decoder_step [OF "1.prems" False] by blast
    have "decode_loop d' = Some (group8 (decoder_stream d'))"
      using False step(2) step(1) step(3) by (rule "1.IH")
    then show ?thesis
      using False step by (simp add: decode_loop.simps [of d])
  qed
qed

text \<open>
  The decoder is total: it cuts the bit stream of the symbols into bytes and drops what is
  left over, without looking at it.
\<close>

lemma from_base32z_eq: "from_base32z s = Some (group8 (symbol_bits s))"
proof (cases "s = []")
  case True
  have "decoder_inv \<lparr>d_it = [], d_in = 0, d_bits = 0\<rparr>"
    by (simp add: decoder_inv_def)
  then have "decode_loop \<lparr>d_it = [], d_in = 0, d_bits = 0\<rparr> =
      Some (group8 (decoder_stream \<lparr>d_it = [], d_in = 0, d_bits = 0\<rparr>))"
    by (rule decode_loop_spec)
  then show ?thesis
    using True by (simp add: from_base32z_def new_decoder_def decoder_stream_def symbol_bits_def)
next
  case False
  have "take_bit 0 (0 :: uint_fast16_t) = 0"
    by simp
  then obtain d' where d': "load_byte \<lparr>d_it = s, d_in = 0, d_bits = int 0\<rparr> = Some d'"
    "decoder_inv d'" "decoder_stream d' = bits_of 0 (0 :: uint_fast16_t) @ symbol_bits s"
    using load_byte_spec [OF _ _ False, of 0 0] by auto
  have "decode_loop d' = Some (group8 (decoder_stream d'))"
    using d'(2) by (rule decode_loop_spec)
  then show ?thesis
    using False d'(1,3) by (simp add: from_base32z_def new_decoder_def)
qed

section \<open>Encoding, decoding and validation together\<close>

lemma group8_byte_bits:
  assumes "length pad < 8"
  shows "group8 (byte_bits bs @ pad) = bs"
proof (induction bs)
  case Nil
  show ?case
    using assms by (simp add: byte_bits_def group8_short)
next
  case (Cons b bs)
  have "group8 (bits_of 8 b @ (byte_bits bs @ pad)) =
      byte_of_bits (bits_of 8 b) # group8 (byte_bits bs @ pad)"
    by (rule group8_append8) simp
  then show ?case
    by (simp add: byte_bits_Cons Cons.IH byte_of_bits_of)
qed

lemma group8_padded: "group8 (padded (byte_bits bs)) = bs"
proof -
  have "pad5 (length (byte_bits bs)) < 5"
    by (rule pad5_less)
  then have "length (replicate (pad5 (length (byte_bits bs))) False) < 8"
    by simp
  then show ?thesis
    unfolding padded_def by (rule group8_byte_bits)
qed

lemma to_base32z_valid:
  assumes "to_base32z input = Some s"
  shows "is_base32z random s"
proof -
  obtain s' where "to_base32z input = Some s'" "set s' \<subseteq> set to_b32z_lut"
    using to_base32z_bits by blast
  then have "set s \<subseteq> set to_b32z_lut"
    using assms by simp
  then have "\<forall>c \<in> set s. alphabet_member c"
    using lut_alphabet_member by blast
  moreover have "length s mod 8 \<notin> {1, 3, 6}"
    using encoded_length_roundtrip [of "length input"] to_base32z_length [OF assms] by simp
  ultimately show ?thesis
    by (simp only: is_base32z_iff simp_thms)
qed

text \<open>
  Claim C1.  For every byte sequence, decoding its encoding gives the sequence back, in
  a release build and, the encoding being valid, in a debug build as well.
\<close>

theorem base32z_roundtrip:
  "to_base32z input \<bind> from_base32z = Some input \<and>
   to_base32z input \<bind> from_base32z_debug random = Some input"
proof -
  obtain s where s: "to_base32z input = Some s" "symbol_bits s = padded (byte_bits input)"
    using to_base32z_bits by blast
  have "from_base32z s = Some (group8 (padded (byte_bits input)))"
    by (simp add: from_base32z_eq s(2))
  then have d: "from_base32z s = Some input"
    by (simp only: group8_padded)
  have "is_base32z random s"
    using s(1) by (rule to_base32z_valid)
  then show ?thesis
    using s(1) d by (simp add: from_base32z_debug_def)
qed

text \<open>
  Claim C2.  For every byte sequence \<^verbatim>\<open>to_base32z\<close> returns a string whose characters are
  all among the 32 lower-case symbols and whose length is \<open>(8 n + 4) div 5\<close> for \<open>n\<close> input
  bytes, which is \<^verbatim>\<open>to_base32z_size(n)\<close> for every length whose bit count fits \<^verbatim>\<open>size_t\<close>;
  the values 0, 5, 17, 20 and 31 encode to \<^verbatim>\<open>y\<close>, \<^verbatim>\<open>f\<close>, \<^verbatim>\<open>t\<close>, \<^verbatim>\<open>w\<close> and \<^verbatim>\<open>9\<close>; the empty
  sequence encodes to the empty string and the byte 0 to \<^verbatim>\<open>yy\<close>.
\<close>

theorem to_base32z_spec:
  "(\<exists>s. to_base32z input = Some s \<and>
      set s \<subseteq> set ''ybndrfg8ejkmcpqxot1uwisza345h769'' \<and>
      length s = (length input * 8 + 4) div 5 \<and>
      (length input * 8 + 4 < 2 ^ 64 \<longrightarrow>
         length s = unat (to_base32z_size (of_nat (length input))))) \<and>
   to_b32z 0 = Some (CHR ''y'') \<and> to_b32z 5 = Some (CHR ''f'') \<and>
   to_b32z 17 = Some (CHR ''t'') \<and> to_b32z 20 = Some (CHR ''w'') \<and>
   to_b32z 31 = Some (CHR ''9'') \<and>
   to_base32z [] = Some [] \<and> to_base32z [0] = Some ''yy''"
proof -
  obtain s where s: "to_base32z input = Some s" "set s \<subseteq> set to_b32z_lut"
    using to_base32z_bits by blast
  have len: "length s = (length input * 8 + 4) div 5"
    using s(1) by (rule to_base32z_length)
  have "length s = unat (to_base32z_size (of_nat (length input)))"
    if "length input * 8 + 4 < 2 ^ 64"
  proof -
    have "length input < 2 ^ 64"
      using that by simp
    then have u: "unat (of_nat (length input) :: size_t) = length input"
      by (simp add: unat_of_nat)
    then have "unat (of_nat (length input) :: size_t) * 8 + 4 < 2 ^ 64"
      using that by simp
    then have "unat (to_base32z_size (of_nat (length input))) =
        (unat (of_nat (length input) :: size_t) * 8 + 4) div 5"
      by (rule unat_to_base32z_size)
    then show ?thesis
      by (simp only: u len)
  qed
  then have "\<exists>s. to_base32z input = Some s \<and>
      set s \<subseteq> set ''ybndrfg8ejkmcpqxot1uwisza345h769'' \<and>
      length s = (length input * 8 + 4) div 5 \<and>
      (length input * 8 + 4 < 2 ^ 64 \<longrightarrow>
         length s = unat (to_base32z_size (of_nat (length input))))"
    using s len unfolding to_b32z_lut_def by blast
  moreover have "to_b32z 0 = Some (CHR ''y'')" "to_b32z 5 = Some (CHR ''f'')"
    "to_b32z 17 = Some (CHR ''t'')" "to_b32z 20 = Some (CHR ''w'')"
    "to_b32z 31 = Some (CHR ''9'')"
    by (simp_all add: to_b32z_def to_b32z_lut_def)
  moreover have "to_base32z [] = Some []"
    by code_simp
  moreover have "to_base32z [0] = Some ''yy''"
    by code_simp
  ultimately show ?thesis
    by blast
qed

theorem to_base32z_spec_witness:
  "length [1, 2, 3 :: byte] * 8 + 4 < (2 :: nat) ^ 64 \<and>
   to_base32z [1, 2, 3] = Some ''yrbyg'' \<and>
   unat (to_base32z_size (of_nat (length [1, 2, 3 :: byte]))) = 5"
proof -
  have e: "to_base32z [1, 2, 3] = Some ''yrbyg''"
    by code_simp
  have "length [1, 2, 3 :: byte] * 8 + 4 < (2 :: nat) ^ 64"
    by simp
  then show ?thesis
    using e to_base32z_spec [of "[1, 2, 3]"] by auto
qed

lemma group8_take: "group8 (take (8 * (length bs div 8)) bs) = group8 bs"
proof (induction "length bs" arbitrary: bs rule: less_induct)
  case less
  show ?case
  proof (cases "length bs < 8")
    case True
    then show ?thesis
      by (simp add: group8_short)
  next
    case False
    define a rest where "a = take 8 bs" and "rest = drop 8 bs"
    have bs: "bs = a @ rest" and a: "length a = 8" and r: "length rest < length bs"
      using False by (simp_all add: a_def rest_def)
    have "length bs = length rest + 8"
      using a by (simp add: bs)
    then have "length bs div 8 = length rest div 8 + 1"
      by simp
    then have "8 * (length bs div 8) = length a + 8 * (length rest div 8)"
      using a by simp
    then have "take (8 * (length bs div 8)) bs = a @ take (8 * (length rest div 8)) rest"
      unfolding bs by (simp only: take_append) simp
    then have "group8 (take (8 * (length bs div 8)) bs) =
        byte_of_bits a # group8 (take (8 * (length rest div 8)) rest)"
      using a by (simp only: group8_append8)
    also have "\<dots> = byte_of_bits a # group8 rest"
      using less [OF r] by simp
    also have "\<dots> = group8 bs"
      unfolding bs using a by (simp only: group8_append8)
    finally show ?thesis .
  qed
qed

text \<open>
  Claim C4.  The decoder ignores the trailing padding bits: what it returns is a function
  of the leading whole bytes of the symbols' bit stream alone.  The bytes \<^verbatim>\<open>FF FF\<close> encode
  to \<^verbatim>\<open>999o\<close>, and \<^verbatim>\<open>999o\<close>, \<^verbatim>\<open>9999\<close>, \<^verbatim>\<open>9993\<close> and \<^verbatim>\<open>999z\<close>, which differ only in the
  four padding bits of the last symbol, all pass \<^verbatim>\<open>is_base32z\<close> and all decode to the bytes
  \<^verbatim>\<open>FF FF\<close>.
\<close>

theorem padding_bits_ignored:
  "from_base32z s = Some (group8 (take (8 * (length s * 5 div 8)) (symbol_bits s))) \<and>
   to_base32z [0xFF, 0xFF] = Some ''999o'' \<and>
   from_base32z ''999o'' = Some [0xFF, 0xFF] \<and>
   from_base32z ''9999'' = Some [0xFF, 0xFF] \<and>
   from_base32z ''9993'' = Some [0xFF, 0xFF] \<and>
   from_base32z ''999z'' = Some [0xFF, 0xFF] \<and>
   from_base32z_debug random ''999o'' = Some [0xFF, 0xFF] \<and>
   from_base32z_debug random ''9999'' = Some [0xFF, 0xFF] \<and>
   from_base32z_debug random ''9993'' = Some [0xFF, 0xFF] \<and>
   from_base32z_debug random ''999z'' = Some [0xFF, 0xFF]"
proof -
  have "group8 (take (8 * (length (symbol_bits s) div 8)) (symbol_bits s)) = group8 (symbol_bits s)"
    by (rule group8_take)
  then have g: "from_base32z s = Some (group8 (take (8 * (length s * 5 div 8)) (symbol_bits s)))"
    by (simp add: from_base32z_eq length_symbol_bits mult.commute)
  have e: "to_base32z [0xFF, 0xFF] = Some ''999o''"
    by code_simp
  have d1: "from_base32z ''999o'' = Some [0xFF, 0xFF]"
    by code_simp
  have d2: "from_base32z ''9999'' = Some [0xFF, 0xFF]"
    by code_simp
  have d3: "from_base32z ''9993'' = Some [0xFF, 0xFF]"
    by code_simp
  have d4: "from_base32z ''999z'' = Some [0xFF, 0xFF]"
    by code_simp
  have "\<forall>c \<in> set ''999o9 3z''. c = CHR '' '' \<or> alphabet_member c"
    by code_simp
  then have v: "is_base32z random ''999o''" "is_base32z random ''9999''"
    "is_base32z random ''9993''" "is_base32z random ''999z''"
    unfolding is_base32z_iff by simp_all
  show ?thesis
    unfolding from_base32z_debug_def using g e d1 d2 d3 d4 v by simp
qed

lemma symbol_bits_upper:
  assumes "list_all2 (\<lambda>c c'. c' = c \<or> c' = ascii_upper c) s s'"
    and "\<forall>c \<in> set s. alphabet_member c"
  shows "symbol_bits s' = symbol_bits s \<and> (\<forall>c \<in> set s'. alphabet_member c)"
  using assms
proof (induction s s' rule: list_all2_induct)
  case Nil
  show ?case
    by simp
next
  case (Cons c s c' s')
  have "alphabet_member c"
    using Cons.prems by simp
  then have "alphabet_member c' \<and> from_b32z c' = from_b32z c"
    using Cons.hyps(1) from_b32z_upper [of c] by auto
  then show ?case
    using Cons.IH Cons.prems by (simp add: symbol_bits_Cons)
qed

text \<open>
  Claim C5.  Let \<open>s\<close> be a valid encoding in lower case, and let \<open>s'\<close> be \<open>s\<close> with any of
  its characters replaced by their upper-case forms (which changes letters only).  Then
  \<open>s'\<close> passes \<^verbatim>\<open>is_base32z\<close> and decodes to the same bytes as \<open>s\<close>.
\<close>

theorem case_insensitive:
  assumes "is_base32z random s" and "set s \<subseteq> set to_b32z_lut"
    and "list_all2 (\<lambda>c c'. c' = c \<or> c' = ascii_upper c) s s'"
  shows "is_base32z random s' \<and> from_base32z s' = from_base32z s \<and>
    from_base32z_debug random s' = from_base32z_debug random s"
proof -
  have m: "\<forall>c \<in> set s. alphabet_member c"
    using assms(2) lut_alphabet_member by blast
  have u: "symbol_bits s' = symbol_bits s" "\<forall>c \<in> set s'. alphabet_member c"
    using symbol_bits_upper [OF assms(3) m] by simp_all
  have "length s' = length s"
    using assms(3) by (simp add: list_all2_lengthD)
  then have v: "is_base32z random s'"
    using assms(1) u(2) by (simp add: is_base32z_iff)
  have "from_base32z s' = from_base32z s"
    by (simp only: from_base32z_eq u(1))
  then show ?thesis
    using v assms(1) by (simp add: from_base32z_debug_def)
qed

theorem case_insensitive_witness:
  "is_base32z True ''ybndrfg8'' \<and> set ''ybndrfg8'' \<subseteq> set to_b32z_lut \<and>
   list_all2 (\<lambda>c c'. c' = c \<or> c' = ascii_upper c) ''ybndrfg8'' ''YbNDrfG8'' \<and>
   is_base32z True ''YbNDrfG8'' \<and> from_base32z ''YbNDrfG8'' = from_base32z ''ybndrfg8'' \<and>
   from_base32z ''ybndrfg8'' = Some [0x00, 0x44, 0x32, 0x14, 0xC7]"
proof -
  have h1: "is_base32z True ''ybndrfg8''"
    by code_simp
  have h2: "set ''ybndrfg8'' \<subseteq> set to_b32z_lut"
    by code_simp
  have h3: "list_all2 (\<lambda>c c'. c' = c \<or> c' = ascii_upper c) ''ybndrfg8'' ''YbNDrfG8''"
    by code_simp
  have "from_base32z ''ybndrfg8'' = Some [0x00, 0x44, 0x32, 0x14, 0xC7]"
    by code_simp
  then show ?thesis
    using h1 h2 h3 case_insensitive [OF h1 h2 h3] by blast
qed

text \<open>
  Claim C6.  For every symbol sequence that satisfies \<^verbatim>\<open>is_base32z\<close>, of a length \<open>k\<close> whose
  bit count \<open>5 k\<close> fits \<^verbatim>\<open>size_t\<close>, \<^verbatim>\<open>from_base32z\<close> produces exactly
  \<^verbatim>\<open>from_base32z_size(k)\<close> bytes.
\<close>

theorem from_base32z_length:
  assumes "is_base32z random s" and "length s * 5 < 2 ^ 64"
  shows "\<exists>bs. from_base32z s = Some bs \<and> from_base32z_debug random s = Some bs \<and>
    length bs = unat (from_base32z_size (of_nat (length s)))"
proof -
  have "length s < 2 ^ 64"
    using assms(2) by simp
  then have u: "unat (of_nat (length s) :: size_t) = length s"
    by (simp add: unat_of_nat)
  then have "unat (of_nat (length s) :: size_t) * 5 < 2 ^ 64"
    using assms(2) by simp
  then have "unat (from_base32z_size (of_nat (length s))) =
      (if unat (of_nat (length s) :: size_t) mod 8 \<in> {1, 3, 6} then 0
       else unat (of_nat (length s) :: size_t) * 5 div 8)"
    by (rule unat_from_base32z_size)
  moreover have "length s mod 8 \<notin> {1, 3, 6}"
    using assms(1) by (simp add: is_base32z_iff)
  ultimately have "unat (from_base32z_size (of_nat (length s))) = length s * 5 div 8"
    by (simp only: u if_False)
  then have "length (group8 (symbol_bits s)) = unat (from_base32z_size (of_nat (length s)))"
    by (simp add: length_group8 length_symbol_bits mult.commute)
  then show ?thesis
    using assms(1) by (simp add: from_base32z_eq from_base32z_debug_def)
qed

theorem from_base32z_length_witness:
  "is_base32z True ''ybndrfg'' \<and> length ''ybndrfg'' * 5 < (2 :: nat) ^ 64 \<and>
   from_base32z ''ybndrfg'' = Some [0x00, 0x44, 0x32, 0x14] \<and>
   unat (from_base32z_size (of_nat (length ''ybndrfg''))) = 4"
proof -
  have h1: "is_base32z True ''ybndrfg''"
    by code_simp
  have h2: "length ''ybndrfg'' * 5 < (2 :: nat) ^ 64"
    by simp
  have d: "from_base32z ''ybndrfg'' = Some [0x00, 0x44, 0x32, 0x14]"
    by code_simp
  obtain bs where b: "from_base32z ''ybndrfg'' = Some bs"
    "length bs = unat (from_base32z_size (of_nat (length ''ybndrfg'')))"
    using from_base32z_length [OF h1 h2] by blast
  have "bs = [0x00, 0x44, 0x32, 0x14]"
    using b(1) d by simp
  then have "length bs = 4"
    by simp
  then have "unat (from_base32z_size (of_nat (length ''ybndrfg''))) = 4"
    by (simp only: b(2))
  then show ?thesis
    using h1 h2 d by blast
qed

text \<open>
  Claim C10.  Without the assertion, \<^verbatim>\<open>from_base32z\<close> returns on every character sequence,
  valid or not: for \<open>k\<close> characters it produces the \<open>5 k div 8\<close> bytes that the bit stream
  of the symbols' table values holds, and drops the rest of the stream, which has fewer
  than eight bits.  Every table lookup is inside the 256 entries of the table, and a
  character outside the alphabet has the table value 0.
\<close>

theorem from_base32z_total:
  "from_base32z s = Some (group8 (symbol_bits s)) \<and>
   length (group8 (symbol_bits s)) = length s * 5 div 8 \<and>
   length (symbol_bits s) - 8 * length (group8 (symbol_bits s)) < 8 \<and>
   (of_char c :: nat) < length from_b32z_lut \<and> length from_b32z_lut = 256 \<and>
   (\<not> alphabet_member c \<longrightarrow> from_b32z c = 0 \<and> symbol_bits [c] = replicate 5 False)"
proof -
  have "length (group8 (symbol_bits s)) = length s * 5 div 8"
    by (simp add: length_group8 length_symbol_bits mult.commute)
  moreover have "length (symbol_bits s) - 8 * length (group8 (symbol_bits s)) < 8"
    by (simp add: length_group8 minus_mult_div_eq_mod)
  moreover have "(of_char c :: nat) < length from_b32z_lut"
    by (simp add: length_from_b32z_lut)
  moreover have "from_b32z c = 0 \<and> symbol_bits [c] = replicate 5 False" if "\<not> alphabet_member c"
    using from_b32z_zero [OF that] by (simp add: symbol_bits_def bits_of_zero_word)
  ultimately show ?thesis
    using from_base32z_eq length_from_b32z_lut by blast
qed

theorem from_base32z_total_witness:
  "\<not> alphabet_member (CHR ''!'') \<and> from_b32z (CHR ''!'') = 0 \<and>
   \<not> is_base32z True ''99999!'' \<and>
   from_base32z ''99999!'' = Some [0xFF, 0xFF, 0xFF] \<and>
   group8 (symbol_bits ''99999!'') = [0xFF, 0xFF, 0xFF] \<and>
   from_base32z ''9'' = Some []"
proof -
  have h: "\<not> alphabet_member (CHR ''!'')"
    by code_simp
  have v: "\<not> is_base32z True ''99999!''"
    by code_simp
  have d: "from_base32z ''99999!'' = Some [0xFF, 0xFF, 0xFF]" "from_base32z ''9'' = Some []"
    by code_simp+
  show ?thesis
    using h v d from_base32z_total [of "''99999!''" "CHR ''!''"] by auto
qed

end
